theory Spec2Isabelle
  imports Main "HOL-Library.Word"
begin

section \<open>Data model\<close>

text \<open>
  The tool \<^verbatim>\<open>tools/bmp_to_header.py\<close> reads a binary file and writes a C++ header that
  embeds its bytes. A byte of the input blob (\<^verbatim>\<open>data[k]\<close>, an integer in 0..255) is an
  8-bit word; paths, identifiers and the generated text are strings. The world the
  script runs in is the file system (a map from paths to file contents), the paths that
  can be opened for reading and for writing, the characters beyond ASCII that the
  encoding of text files can encode, and what has been printed on standard output.
  Text written to a file is stored as the bytes of its characters; newline translation
  of the platform is not modelled.
\<close>

type_synonym byte = "8 word"

datatype error = IOError | IndexError | UnicodeEncodeError

record world =
  files :: "string \<rightharpoonup> byte list"
  can_read :: "string \<Rightarrow> bool"
  can_write :: "string \<Rightarrow> bool"
  locale_encodes :: "char \<Rightarrow> bool"
  stdout :: string

definition newline :: char where
  "newline = CHR 0x0A"

definition encode_text :: "string \<Rightarrow> byte list" where
  "encode_text s = map of_char s"

text \<open>\<^verbatim>\<open>with open(input_file, 'rb') as f: data = f.read()\<close>\<close>

definition read_binary :: "world \<Rightarrow> string \<Rightarrow> error + byte list" where
  "read_binary w path =
     (case files w path of
        None \<Rightarrow> Inl IOError
      | Some content \<Rightarrow> if can_read w path then Inr content else Inl IOError)"

text \<open>\<^verbatim>\<open>open(output_file, 'w')\<close>: the file is created, or truncated when it exists.\<close>

definition open_write :: "world \<Rightarrow> string \<Rightarrow> error + world" where
  "open_write w path =
     (if can_write w path then Inr (w\<lparr>files := (files w)(path \<mapsto> [])\<rparr>) else Inl IOError)"

text \<open>
  The file object \<^verbatim>\<open>f\<close> of the \<^verbatim>\<open>with\<close> block: a text file opened for writing with
  the encoding of the locale and strict error handling. It holds the characters beyond
  ASCII that its encoding can encode, and the text written so far.
\<close>

record text_file =
  codec :: "char \<Rightarrow> bool"
  written :: string

definition new_file :: "(char \<Rightarrow> bool) \<Rightarrow> text_file" where
  "new_file enc = \<lparr>codec = enc, written = []\<rparr>"

definition is_ascii :: "char \<Rightarrow> bool" where
  "is_ascii c = (of_char c < (128::nat))"

definition encodable :: "text_file \<Rightarrow> string \<Rightarrow> bool" where
  "encodable f s = list_all (\<lambda>c. is_ascii c \<or> codec f c) s"

text \<open>
  \<^verbatim>\<open>f.write(s)\<close>: the text is encoded as a whole; when a character of it cannot be
  encoded the call raises \<^verbatim>\<open>UnicodeEncodeError\<close> and writes nothing of it.
\<close>

definition f_write :: "text_file \<Rightarrow> string \<Rightarrow> error option \<times> text_file" where
  "f_write f s =
     (if encodable f s then (None, f\<lparr>written := written f @ s\<rparr>)
      else (Some UnicodeEncodeError, f))"

text \<open>One statement after another: an exception raised by the first skips the rest.\<close>

definition and_then ::
  "error option \<times> text_file \<Rightarrow> (text_file \<Rightarrow> error option \<times> text_file) \<Rightarrow> error option \<times> text_file" where
  "and_then r k = (case r of (Some e, f) \<Rightarrow> (Some e, f) | (None, f) \<Rightarrow> k f)"

text \<open>\<^verbatim>\<open>print(s)\<close>\<close>

definition print :: "world \<Rightarrow> string \<Rightarrow> world" where
  "print w s = w\<lparr>stdout := stdout w @ s @ [newline]\<rparr>"

section \<open>Formatting a byte\<close>

text \<open>
  The format specification \<^verbatim>\<open>02x\<close> writes a non-negative integer in lowercase
  hexadecimal, padded with zeros on the left to a width of at least two.
\<close>

definition hex_digit :: "nat \<Rightarrow> char" where
  "hex_digit d = ''0123456789abcdef'' ! d"

function to_hex :: "nat \<Rightarrow> string" where
  "to_hex n = (if n < 16 then [hex_digit n] else to_hex (n div 16) @ [hex_digit (n mod 16)])"
  by pat_completeness auto
termination
  by (relation "measure id") auto

definition fmt_02x :: "nat \<Rightarrow> string" where
  "fmt_02x n = replicate (2 - length (to_hex n)) (CHR ''0'') @ to_hex n"

text \<open>The f-string \<^verbatim>\<open>f"0x{b:02x}"\<close> for a byte \<open>b\<close> of the blob.\<close>

definition hex_literal :: "byte \<Rightarrow> string" where
  "hex_literal b = ''0x'' @ fmt_02x (unat b)"

text \<open>\<^verbatim>\<open>data[k]\<close> for \<open>k \<ge> 0\<close>: an index past the end raises.\<close>

definition index :: "byte list \<Rightarrow> nat \<Rightarrow> error + byte" where
  "index data k = (if k < length data then Inr (data ! k) else Inl IndexError)"

section \<open>The conversion\<close>

text \<open>
  The loops thread the file object; the first component of their result is the
  exception that stopped them, if any.
  \<^verbatim>\<open>
  for j in range(chunk_size):
      f.write(f"0x{data[i+j]:02x}")
      if i + j < len(data) - 1:
          f.write(", ")
  \<close>
\<close>

function inner_loop :: "byte list \<Rightarrow> nat \<Rightarrow> int \<Rightarrow> nat \<Rightarrow> text_file \<Rightarrow> error option \<times> text_file" where
  "inner_loop data i chunk_size j f =
     (if int j < chunk_size then
        (case index data (i + j) of
           Inl e \<Rightarrow> (Some e, f)
         | Inr b \<Rightarrow>
             (case f_write f (hex_literal b) of
                (Some e, f1) \<Rightarrow> (Some e, f1)
              | (None, f1) \<Rightarrow>
                  (if int (i + j) < int (length data) - 1
                   then (case f_write f1 '', '' of
                           (Some e, f2) \<Rightarrow> (Some e, f2)
                         | (None, f2) \<Rightarrow> inner_loop data i chunk_size (j + 1) f2)
                   else inner_loop data i chunk_size (j + 1) f1)))
      else (None, f))"
  by pat_completeness auto
termination
  by (relation "measure (\<lambda>(data, i, chunk_size, j, f). nat (chunk_size - int j))") auto

text \<open>
  \<^verbatim>\<open>
  for i in range(0, len(data), 16):
      f.write("    ")
      chunk_size = min(16, len(data) - i)
      for j in range(chunk_size): ...
      f.write("\n")
  \<close>
\<close>

function outer_loop :: "byte list \<Rightarrow> nat \<Rightarrow> text_file \<Rightarrow> error option \<times> text_file" where
  "outer_loop data i f =
     (if i < length data then
        (case f_write f ''    '' of
           (Some e, f1) \<Rightarrow> (Some e, f1)
         | (None, f1) \<Rightarrow>
             (case inner_loop data i (min 16 (int (length data) - int i)) 0 f1 of
                (Some e, f2) \<Rightarrow> (Some e, f2)
              | (None, f2) \<Rightarrow>
                  (case f_write f2 [newline] of
                     (Some e, f3) \<Rightarrow> (Some e, f3)
                   | (None, f3) \<Rightarrow> outer_loop data (i + 16) f3)))
      else (None, f))"
  by pat_completeness auto
termination
  by (relation "measure (\<lambda>(data, i, f). length data - i)") auto

text \<open>
  The text of the rows of the array: what the loops write to a new file. The loops write
  ASCII only, so the encoding of the file does not matter.
\<close>

definition array_body :: "byte list \<Rightarrow> string" where
  "array_body data = written (snd (outer_loop data 0 (new_file (\<lambda>c. False))))"

text \<open>The body of \<^verbatim>\<open>with open(output_file, 'w') as f\<close>: all the writes, in order.\<close>

definition write_header ::
  "string \<Rightarrow> string \<Rightarrow> byte list \<Rightarrow> text_file \<Rightarrow> error option \<times> text_file" where
  "write_header input_file var_name data f =
     and_then (f_write f (''// Generated from '' @ input_file @ [newline])) (\<lambda>f.
     and_then (f_write f (''#pragma once'' @ [newline, newline])) (\<lambda>f.
     and_then (f_write f (''#include <cstdint>'' @ [newline, newline])) (\<lambda>f.
     and_then (f_write f (''inline constexpr unsigned char '' @ var_name @ ''_data[] = {''
                 @ [newline])) (\<lambda>f.
     and_then (outer_loop data 0 f) (\<lambda>f.
     and_then (f_write f (''};'' @ [newline, newline])) (\<lambda>f.
     f_write f (''inline constexpr unsigned int '' @ var_name @ ''_len = sizeof('' @ var_name
       @ ''_data);'' @ [newline])))))))"

text \<open>
  \<^verbatim>\<open>bmp_to_header(input_file, output_file, var_name)\<close>: the input is read whole, then the
  output is opened; leaving the \<^verbatim>\<open>with\<close> block closes the file with what was written,
  also when an exception leaves it.
\<close>

definition bmp_to_header :: "string \<Rightarrow> string \<Rightarrow> string \<Rightarrow> world \<Rightarrow> (error + unit) \<times> world" where
  "bmp_to_header input_file output_file var_name w =
     (case read_binary w input_file of
        Inl e \<Rightarrow> (Inl e, w)
      | Inr data \<Rightarrow>
          (case open_write w output_file of
             Inl e \<Rightarrow> (Inl e, w)
           | Inr w1 \<Rightarrow>
               (case write_header input_file var_name data (new_file (locale_encodes w)) of
                  (r, f) \<Rightarrow>
                    ((case r of Some e \<Rightarrow> Inl e | None \<Rightarrow> Inr ()),
                     w1\<lparr>files := (files w1)(output_file \<mapsto> encode_text (written f))\<rparr>))))"

section \<open>The command line\<close>

text \<open>
  How the script ends: \<^verbatim>\<open>sys.exit(n)\<close>, an uncaught exception (status 1), or the end
  of the script (status 0).
\<close>

datatype outcome = Exited nat | Raised error | Finished

fun exit_status :: "outcome \<Rightarrow> nat" where
  "exit_status (Exited n) = n"
| "exit_status (Raised e) = 1"
| "exit_status Finished = 0"

definition usage :: "string \<Rightarrow> string" where
  "usage prog = ''Usage: '' @ prog @ '' <input.bmp> <output.h> <var_name>''"

definition main :: "string list \<Rightarrow> world \<Rightarrow> outcome \<times> world" where
  "main argv w =
     (if length argv \<noteq> 4 then
        (case argv of
           [] \<Rightarrow> (Raised IndexError, w)
         | prog # _ \<Rightarrow> (Exited 1, print w (usage prog)))
      else
        (case bmp_to_header (argv ! 1) (argv ! 2) (argv ! 3) w of
           (Inl e, w') \<Rightarrow> (Raised e, w')
         | (Inr _, w') \<Rightarrow> (Finished, print w' (''Generated '' @ argv ! 2))))"

section \<open>Reading the generated text back\<close>

text \<open>
  The properties of the array body are stated through what a reader of the header sees.
  The formatting characters are the space, the comma and the newline; a literal is a
  maximal run of other characters. Decoding parses each literal as \<^verbatim>\<open>0x\<close> followed
  by two lowercase hexadecimal digits. The lines of a text are the runs of characters
  that its newlines end.
\<close>

definition is_formatting :: "char \<Rightarrow> bool" where
  "is_formatting c = (c = CHR '' '' \<or> c = CHR '','' \<or> c = newline)"

fun literals_from :: "string \<Rightarrow> string \<Rightarrow> string list" where
  "literals_from cur [] = (if cur = [] then [] else [cur])"
| "literals_from cur (c # cs) =
     (if is_formatting c
      then (if cur = [] then literals_from [] cs else cur # literals_from [] cs)
      else literals_from (cur @ [c]) cs)"

definition literals :: "string \<Rightarrow> string list" where
  "literals s = literals_from [] s"

definition hex_value :: "char \<Rightarrow> nat option" where
  "hex_value c =
     (if c \<in> set ''0123456789abcdef''
      then Some (length (takeWhile (\<lambda>d. d \<noteq> c) ''0123456789abcdef''))
      else None)"

fun parse_literal :: "string \<Rightarrow> byte option" where
  "parse_literal [z, x, h, l] =
     (if z = CHR ''0'' \<and> x = CHR ''x'' then
        (case (hex_value h, hex_value l) of
           (Some a, Some b) \<Rightarrow> Some (of_nat (16 * a + b))
         | _ \<Rightarrow> None)
      else None)"
| "parse_literal _ = None"

definition decode :: "string \<Rightarrow> byte list option" where
  "decode s = those (map parse_literal (literals s))"

fun lines_from :: "string \<Rightarrow> string \<Rightarrow> string list" where
  "lines_from cur [] = (if cur = [] then [] else [cur])"
| "lines_from cur (c # cs) =
     (if c = newline then cur # lines_from [] cs else lines_from (cur @ [c]) cs)"

definition lines_of :: "string \<Rightarrow> string list" where
  "lines_of s = lines_from [] s"









text \<open>
  The offset in the array body at which the \<open>k\<close>-th value starts: a full line has four
  spaces, sixteen values of four characters, each followed by a comma and a space, and a
  newline, 101 characters in all.
\<close>

definition entry_offset :: "nat \<Rightarrow> nat" where
  "entry_offset k = 101 * (k div 16) + 4 + 6 * (k mod 16)"

section \<open>The text the loops write\<close>

text \<open>
  What one value contributes to the text, one row of the array, and the rows from index
  \<open>i\<close> on: the closed form of the two loops.
\<close>

definition entry :: "byte list \<Rightarrow> nat \<Rightarrow> string" where
  "entry data k = hex_literal (data ! k) @ (if k + 1 < length data then '', '' else [])"

definition row :: "byte list \<Rightarrow> nat \<Rightarrow> string" where
  "row data i = ''    '' @ concat (map (entry data) [i..<min (i + 16) (length data)]) @ [newline]"

function rows :: "byte list \<Rightarrow> nat \<Rightarrow> string" where
  "rows data i = (if i < length data then row data i @ rows data (i + 16) else [])"
  by pat_completeness auto
termination
  by (relation "measure (\<lambda>(data, i). length data - i)") auto

text \<open>A row without the newline that ends it.\<close>

definition row_line :: "byte list \<Rightarrow> nat \<Rightarrow> string" where
  "row_line data i = ''    '' @ concat (map (entry data) [i..<min (i + 16) (length data)])"

text \<open>The whole header, for a path, an identifier and the bytes read.\<close>

definition header_text :: "string \<Rightarrow> string \<Rightarrow> byte list \<Rightarrow> string" where
  "header_text input_file var_name data =
     ''// Generated from '' @ input_file
       @ ''\<newline>#pragma once\<newline>\<newline>#include <cstdint>\<newline>\<newline>inline constexpr unsigned char ''
       @ var_name @ ''_data[] = {\<newline>'' @ array_body data
       @ ''};\<newline>\<newline>inline constexpr unsigned int '' @ var_name @ ''_len = sizeof(''
       @ var_name @ ''_data);\<newline>''"

text \<open>
  A world to run the script in: a three-byte input, an empty input, every path readable
  and writable, text files that encode ASCII only, nothing printed yet.
\<close>

definition sample_world :: world where
  "sample_world =
     \<lparr>files = [''in.bmp'' \<mapsto> [0x00, 0x41, 0xFF], ''empty.bmp'' \<mapsto> []],
      can_read = (\<lambda>path. True), can_write = (\<lambda>path. True),
      locale_encodes = (\<lambda>c. False), stdout = []\<rparr>"

declare to_hex.simps [simp del] inner_loop.simps [simp del] outer_loop.simps [simp del]
  rows.simps [simp del]

subsection \<open>Formatting\<close>

lemma to_hex_small: "n < 16 \<Longrightarrow> to_hex n = [hex_digit n]"
  by (subst to_hex.simps) simp

lemma to_hex_byte: "16 \<le> n \<Longrightarrow> n < 256 \<Longrightarrow> to_hex n = [hex_digit (n div 16), hex_digit (n mod 16)]"
  by (subst to_hex.simps) (simp add: to_hex_small)

lemma fmt_02x_byte: "n < 256 \<Longrightarrow> fmt_02x n = [hex_digit (n div 16), hex_digit (n mod 16)]"
proof (cases "n < 16")
  case True
  then show ?thesis by (simp add: fmt_02x_def to_hex_small hex_digit_def)
next
  case False
  assume "n < 256"
  with False show ?thesis by (simp add: fmt_02x_def to_hex_byte)
qed

lemma unat_byte_less: "unat (b :: byte) < 256"
  using unsigned_less [of b, where ?'a = nat] by simp

lemma hex_literal_digits:
  "hex_literal b = [CHR ''0'', CHR ''x'', hex_digit (unat b div 16), hex_digit (unat b mod 16)]"
  by (simp add: hex_literal_def fmt_02x_byte unat_byte_less)

lemma length_hex_literal: "length (hex_literal b) = 4"
  by (simp add: hex_literal_digits)

lemma less_16_cases:
  "d < 16 \<Longrightarrow> d = 0 \<or> d = 1 \<or> d = 2 \<or> d = 3 \<or> d = 4 \<or> d = 5 \<or> d = 6 \<or> d = 7 \<or>
     d = 8 \<or> d = 9 \<or> d = 10 \<or> d = 11 \<or> d = 12 \<or> d = 13 \<or> d = 14 \<or> d = (15::nat)"
  by presburger

lemma hex_value_digit: "d < 16 \<Longrightarrow> hex_value (hex_digit d) = Some d"
  using less_16_cases [of d] by (auto simp: hex_value_def hex_digit_def)

lemma hex_digit_plain: "d < 16 \<Longrightarrow> \<not> is_formatting (hex_digit d) \<and> hex_digit d \<noteq> newline"
  using less_16_cases [of d] by (auto simp: is_formatting_def hex_digit_def newline_def)

lemma unat_byte_digits: "unat (b :: byte) div 16 < 16" "unat (b :: byte) mod 16 < 16"
  using unat_byte_less [of b] by auto

lemma hex_literal_plain: "c \<in> set (hex_literal b) \<Longrightarrow> \<not> is_formatting c"
  using hex_digit_plain unat_byte_digits [of b]
  by (auto simp: hex_literal_digits is_formatting_def newline_def)

lemma hex_literal_no_newline: "newline \<notin> set (hex_literal b)"
  using hex_literal_plain [of newline b] by (auto simp: is_formatting_def)

lemma parse_hex_literal: "parse_literal (hex_literal b) = Some b"
proof -
  have "(of_nat (16 * (unat b div 16) + unat b mod 16) :: byte) = b"
    by simp
  then show ?thesis
    by (simp add: hex_literal_digits hex_value_digit unat_byte_digits)
qed

subsection \<open>The loops\<close>

lemma is_ascii_hex_digit: "d < 16 \<Longrightarrow> is_ascii (hex_digit d)"
  using less_16_cases [of d] by (auto simp: is_ascii_def hex_digit_def)

lemma encodable_written: "encodable (f\<lparr>written := t\<rparr>) s = encodable f s"
  by (simp add: encodable_def)

lemma encodable_append: "encodable f (s @ t) = (encodable f s \<and> encodable f t)"
  by (simp add: encodable_def)

lemma encodable_hex_literal: "encodable f (hex_literal b)"
  using is_ascii_hex_digit unat_byte_digits [of b]
  by (simp add: encodable_def hex_literal_digits is_ascii_def)

lemma encodable_entry: "encodable f (entry data k)"
  by (simp add: entry_def encodable_append encodable_hex_literal)
    (simp add: encodable_def is_ascii_def)

lemma f_write_ok: "encodable f s \<Longrightarrow> f_write f s = (None, f\<lparr>written := written f @ s\<rparr>)"
  by (simp add: f_write_def)

lemma f_write_ascii:
  "f_write f ''    '' = (None, f\<lparr>written := written f @ ''    ''\<rparr>)"
  "f_write f [newline] = (None, f\<lparr>written := written f @ [newline]\<rparr>)"
  "f_write f '', '' = (None, f\<lparr>written := written f @ '', ''\<rparr>)"
  by (simp_all add: f_write_def encodable_def is_ascii_def newline_def)

lemma inner_loop_text:
  "int i + chunk_size \<le> int (length data) \<Longrightarrow>
   inner_loop data i chunk_size j f =
     (None, f\<lparr>written := written f @ concat (map (entry data) [i + j..<i + nat chunk_size])\<rparr>)"
proof (induction data i chunk_size j f rule: inner_loop.induct)
  case (1 data i chunk_size j f)
  show ?case
  proof (cases "int j < chunk_size")
    case False
    then show ?thesis by (subst inner_loop.simps) simp
  next
    case True
    with "1.prems" have inb: "i + j < length data" by linarith
    let ?b = "data ! (i + j)"
    let ?f1 = "f\<lparr>written := written f @ hex_literal ?b\<rparr>"
    let ?f2 = "?f1\<lparr>written := written ?f1 @ '', ''\<rparr>"
    let ?g = "f\<lparr>written := written f @ entry data (i + j)\<rparr>"
    from True have rng: "[i + j..<i + nat chunk_size] = (i + j) # [i + (j + 1)..<i + nat chunk_size]"
      by (simp add: upt_conv_Cons)
    have idx: "index data (i + j) = Inr ?b"
      using inb by (simp add: index_def)
    have w1: "f_write f (hex_literal ?b) = (None, ?f1)"
      by (rule f_write_ok) (rule encodable_hex_literal)
    have w2: "f_write ?f1 '', '' = (None, ?f2)"
      by (rule f_write_ascii)
    have rec: "inner_loop data i chunk_size (j + 1) ?g =
        (None, ?g\<lparr>written := written ?g @ concat (map (entry data) [i + (j + 1)..<i + nat chunk_size])\<rparr>)"
    proof (cases "int (i + j) < int (length data) - 1")
      case more: True
      then have eq: "?f2 = ?g" by (simp add: entry_def)
      from "1.IH"(1) [OF True idx w1 [symmetric] refl more w2 [symmetric] refl "1.prems"]
      show ?thesis unfolding eq .
    next
      case last: False
      then have eq: "?f1 = ?g" by (simp add: entry_def)
      from "1.IH"(2) [OF True idx w1 [symmetric] refl last "1.prems"]
      show ?thesis unfolding eq .
    qed
    have step: "inner_loop data i chunk_size j f = inner_loop data i chunk_size (j + 1) ?g"
    proof (cases "int (i + j) < int (length data) - 1")
      case more: True
      then have "?f2 = ?g" by (simp add: entry_def)
      then show ?thesis
        using True more by (subst inner_loop.simps) (simp add: idx w1 w2)
    next
      case last: False
      then have "?f1 = ?g" by (simp add: entry_def)
      then show ?thesis
        using True last by (subst inner_loop.simps) (simp add: idx w1)
    qed
    show ?thesis
      unfolding step rec rng by simp
  qed
qed

lemma outer_loop_text: "outer_loop data i f = (None, f\<lparr>written := written f @ rows data i\<rparr>)"
proof (induction data i f rule: outer_loop.induct)
  case (1 data i f)
  show ?case
  proof (cases "i < length data")
    case False
    then show ?thesis
      by (subst outer_loop.simps, subst rows.simps) simp
  next
    case True
    let ?cs = "min 16 (int (length data) - int i)"
    let ?f1 = "f\<lparr>written := written f @ ''    ''\<rparr>"
    let ?f2 = "?f1\<lparr>written := written ?f1 @ concat (map (entry data) [i..<min (i + 16) (length data)])\<rparr>"
    let ?f3 = "?f2\<lparr>written := written ?f2 @ [newline]\<rparr>"
    have cs: "i + nat ?cs = min (i + 16) (length data)" using True by (auto simp: min_def)
    have w1: "f_write f ''    '' = (None, ?f1)"
      by (rule f_write_ascii)
    have inner: "inner_loop data i ?cs 0 ?f1 = (None, ?f2)"
      using inner_loop_text [of i ?cs data 0 ?f1] cs True by simp
    have w3: "f_write ?f2 [newline] = (None, ?f3)"
      by (rule f_write_ascii)
    have "outer_loop data i f = outer_loop data (i + 16) ?f3"
      using True by (subst outer_loop.simps) (simp only: w1 inner w3 if_True prod.case option.case)
    also have "\<dots> = (None, ?f3\<lparr>written := written ?f3 @ rows data (i + 16)\<rparr>)"
      using "1.IH" [OF True w1 [symmetric] refl inner [symmetric] refl w3 [symmetric] refl] .
    also have "\<dots> = (None, f\<lparr>written := written f @ rows data i\<rparr>)"
      using True by (subst (2) rows.simps) (simp add: row_def)
    finally show ?thesis .
  qed
qed

lemma array_body_rows: "array_body data = rows data 0"
  by (simp add: array_body_def outer_loop_text new_file_def)

subsection \<open>The literals of the array body\<close>

lemma literals_from_word:
  "(\<And>c. c \<in> set w \<Longrightarrow> \<not> is_formatting c) \<Longrightarrow> literals_from cur (w @ s) = literals_from (cur @ w) s"
  by (induction w arbitrary: cur) simp_all

lemma literals_from_snoc:
  "is_formatting c \<Longrightarrow> literals_from cur (s @ [c]) = literals_from cur s"
  by (induction s arbitrary: cur) simp_all

lemma literals_hex_literal:
  "is_formatting c \<Longrightarrow> literals_from [] (hex_literal b @ c # s) = hex_literal b # literals_from [] s"
  using literals_from_word [of "hex_literal b" "[]" "c # s"] hex_literal_plain [of _ b]
    length_hex_literal [of b]
  by auto

lemma literals_entry:
  "is_formatting c \<Longrightarrow> literals_from [] (entry data k @ c # s) = hex_literal (data ! k) # literals_from [] s"
  by (simp add: entry_def literals_hex_literal is_formatting_def)

lemma literals_entries:
  "b \<le> length data \<Longrightarrow>
   literals_from [] (concat (map (entry data) [a..<b]) @ newline # s) =
     map hex_literal (drop a (take b data)) @ literals_from [] s"
proof (induction "b - a" arbitrary: a)
  case 0
  then show ?case by (simp add: is_formatting_def)
next
  case (Suc d)
  then have ab: "a < b" by simp
  then have rng: "[a..<b] = a # [Suc a..<b]" by (simp add: upt_conv_Cons)
  from ab Suc.prems have dr: "drop a (take b data) = data ! a # drop (Suc a) (take b data)"
    by (simp add: Cons_nth_drop_Suc [symmetric])
  have ih: "literals_from [] (concat (map (entry data) [Suc a..<b]) @ newline # s) =
      map hex_literal (drop (Suc a) (take b data)) @ literals_from [] s"
    using Suc.hyps(1) [of "Suc a"] Suc.hyps(2) Suc.prems by simp
  show ?case
  proof (cases "Suc a < length data")
    case True
    have "literals_from [] (entry data a @ concat (map (entry data) [Suc a..<b]) @ newline # s) =
        hex_literal (data ! a) # literals_from [] (concat (map (entry data) [Suc a..<b]) @ newline # s)"
      using True literals_hex_literal [of "CHR '',''" "data ! a"]
      by (simp add: entry_def is_formatting_def)
    with ih rng dr show ?thesis by simp
  next
    case False
    with ab Suc.prems have "b = Suc a" by simp
    then show ?thesis
      using rng dr literals_entry [of newline data a s] by (simp add: is_formatting_def)
  qed
qed

lemma literals_rows: "literals_from [] (rows data i) = map hex_literal (drop i data)"
proof (induction data i rule: rows.induct)
  case (1 data i)
  show ?case
  proof (cases "i < length data")
    case False
    then show ?thesis by (subst rows.simps) simp
  next
    case True
    let ?m = "min (i + 16) (length data)"
    have "literals_from [] (rows data i) =
        literals_from [] (concat (map (entry data) [i..<?m]) @ newline # rows data (i + 16))"
      using True by (subst rows.simps) (simp add: row_def is_formatting_def)
    also have "\<dots> = map hex_literal (drop i (take ?m data)) @ map hex_literal (drop (i + 16) data)"
      using literals_entries [of ?m data i "rows data (i + 16)"] "1.IH" [OF True] by simp
    also have "\<dots> = map hex_literal (drop i data)"
    proof -
      have len: "i - length (take (i + 16) data) = 0"
        using True by simp
      have "drop i (take (i + 16) data @ drop (i + 16) data) =
          drop i (take (i + 16) data) @ drop (i + 16) data"
        unfolding drop_append len by simp
      then have "drop i (take (i + 16) data) @ drop (i + 16) data = drop i data"
        by (simp only: append_take_drop_id)
      moreover have "take ?m data = take (i + 16) data" by (simp add: min_def)
      ultimately show ?thesis by (simp flip: map_append)
    qed
    finally show ?thesis .
  qed
qed

lemma literals_array_body: "literals (array_body data) = map hex_literal data"
  by (simp add: literals_def array_body_rows literals_rows)

lemma parse_literals_array_body:
  "map parse_literal (literals (array_body data)) = map Some data"
  by (simp add: literals_array_body parse_hex_literal)

lemma those_map_Some: "those (map (\<lambda>x. Some (f x)) xs) = Some (map f xs)"
  by (induction xs) simp_all

subsection \<open>The lines of the array body\<close>

lemma row_row_line: "row data i = row_line data i @ [newline]"
  by (simp add: row_def row_line_def)

lemma lines_from_plain:
  "newline \<notin> set w \<Longrightarrow> lines_from cur (w @ s) = lines_from (cur @ w) s"
  by (induction w arbitrary: cur) auto

lemma entry_no_newline: "newline \<notin> set (entry data k)"
  using hex_literal_no_newline [of "data ! k"] by (auto simp: entry_def newline_def)

lemma row_line_no_newline: "newline \<notin> set (row_line data i)"
  using entry_no_newline by (auto simp: row_line_def newline_def)

lemma rows_unfold: "i < length data \<Longrightarrow> rows data i = row_line data i @ newline # rows data (i + 16)"
  by (subst rows.simps) (simp add: row_row_line)

lemma rows_done: "\<not> i < length data \<Longrightarrow> rows data i = []"
  by (subst rows.simps) simp

lemma lines_rows:
  "lines_from [] (rows data i) =
     (if i < length data then row_line data i # lines_from [] (rows data (i + 16)) else [])"
  using lines_from_plain [of "row_line data i" "[]" "newline # rows data (i + 16)"]
    row_line_no_newline [of data i]
  by (simp add: rows_unfold rows_done)

lemma literals_row_line:
  "literals (row_line data i) = map hex_literal (drop i (take (min (i + 16) (length data)) data))"
proof -
  have "literals_from [] (row_line data i) = literals_from [] (row_line data i @ [newline])"
    by (simp add: literals_from_snoc is_formatting_def)
  also have "\<dots> = literals_from [] (concat (map (entry data) [i..<min (i + 16) (length data)]) @ newline # [])"
    by (simp add: row_line_def is_formatting_def)
  also have "\<dots> = map hex_literal (drop i (take (min (i + 16) (length data)) data))"
    using literals_entries [of "min (i + 16) (length data)" data i "[]"] by simp
  finally show ?thesis by (simp add: literals_def)
qed

lemma length_literals_row_line: "length (literals (row_line data i)) \<le> 16"
  by (simp add: literals_row_line)

lemma lines_rows_bound:
  "l \<in> set (lines_from [] (rows data i)) \<Longrightarrow> length (literals l) \<le> 16"
proof (induction data i rule: rows.induct)
  case (1 data i)
  show ?case
  proof (cases "i < length data")
    case True
    with "1.prems" have "l = row_line data i \<or> l \<in> set (lines_from [] (rows data (i + 16)))"
      by (subst (asm) lines_rows) simp
    then show ?thesis
      using "1.IH" [OF True] length_literals_row_line by auto
  next
    case False
    with "1.prems" show ?thesis by (simp add: rows_done)
  qed
qed

lemma length_entries:
  "b < length data \<Longrightarrow> length (concat (map (entry data) [a..<b])) = 6 * (b - a)"
proof (induction b)
  case 0
  then show ?case by simp
next
  case (Suc b)
  show ?case
  proof (cases "a \<le> b")
    case True
    then have "[a..<Suc b] = [a..<b] @ [b]" by simp
    moreover have "length (entry data b) = 6"
      using Suc.prems by (simp add: entry_def length_hex_literal)
    moreover have "length (concat (map (entry data) [a..<b])) = 6 * (b - a)"
      using Suc by simp
    ultimately show ?thesis using True by (simp add: Suc_diff_le)
  next
    case False
    then show ?thesis by simp
  qed
qed

lemma full_row_line:
  "i + 16 < length data \<Longrightarrow>
   row_line data i = ''    '' @ concat (map (entry data) [i..<i + 15]) @ hex_literal (data ! (i + 15)) @ '', ''"
proof -
  assume full: "i + 16 < length data"
  have "[i..<i + 16] = [i..<Suc (i + 15)]"
    by (rule arg_cong [where f = "upt i"]) simp
  then have "[i..<i + 16] = [i..<i + 15] @ [i + 15]"
    by (simp only: upt_Suc_append le_add1)
  moreover have "min (i + 16) (length data) = i + 16" using full by simp
  moreover have "entry data (i + 15) = hex_literal (data ! (i + 15)) @ '', ''"
    using full by (simp add: entry_def)
  ultimately show ?thesis by (simp add: row_line_def)
qed

lemma length_full_row_line: "i + 16 < length data \<Longrightarrow> length (row_line data i) = 100"
proof -
  assume full: "i + 16 < length data"
  then have "length (concat (map (entry data) [i..<i + 16])) = 6 * 16"
    using length_entries [of "i + 16" data i] by simp
  moreover have "min (i + 16) (length data) = i + 16" using full by simp
  ultimately show ?thesis by (simp add: row_line_def)
qed

lemma lines_rows_comma_space:
  "l + 1 < length (lines_from [] (rows data i)) \<Longrightarrow>
   \<exists>p. lines_from [] (rows data i) ! l = p @ '', ''"
proof (induction data i arbitrary: l rule: rows.induct)
  case (1 data i)
  show ?case
  proof (cases "i < length data")
    case False
    with "1.prems" show ?thesis by (simp add: rows_done)
  next
    case True
    then have ls: "lines_from [] (rows data i) = row_line data i # lines_from [] (rows data (i + 16))"
      by (subst lines_rows) simp
    show ?thesis
    proof (cases l)
      case 0
      with "1.prems" ls have "lines_from [] (rows data (i + 16)) \<noteq> []" by auto
      then have "i + 16 < length data"
        by (subst (asm) lines_rows) (simp split: if_splits)
      then show ?thesis using 0 ls full_row_line [of i data] by simp
    next
      case (Suc l')
      with "1.prems" ls have "l' + 1 < length (lines_from [] (rows data (i + 16)))" by simp
      from "1.IH" [OF True this] Suc ls show ?thesis by simp
    qed
  qed
qed

subsection \<open>Where each value stands, and the commas\<close>

lemma entry_offset_first_row: "k < 16 \<Longrightarrow> entry_offset k = 4 + 6 * k"
  by (simp add: entry_offset_def)

lemma entry_offset_next_row: "16 \<le> k \<Longrightarrow> entry_offset k = 101 + entry_offset (k - 16)"
proof -
  assume "16 \<le> k"
  then obtain m where k: "k = m + 16"
    using le_Suc_ex [of 16 k] by (auto simp: add.commute)
  have "(m + 16) div 16 = Suc (m div 16)" "(m + 16) mod 16 = m mod 16"
    by simp_all
  then show ?thesis
    unfolding k by (simp add: entry_offset_def)
qed

lemma drop_prefix: "length p = n \<Longrightarrow> xs = p @ r \<Longrightarrow> drop n xs = r"
  by simp

lemma drop_past: "length p = n \<Longrightarrow> drop (n + m) (p @ r) = drop m r"
  by simp

lemma row_line_split:
  assumes "i \<le> k" "k < i + 16" "k < length data"
  shows "row_line data i =
    (''    '' @ concat (map (entry data) [i..<k])) @ entry data k
      @ concat (map (entry data) [Suc k..<min (i + 16) (length data)])"
proof -
  let ?m = "min (i + 16) (length data)"
  from assms have "k < ?m" by simp
  then have "[k..<?m] = k # [Suc k..<?m]"
    by (simp only: upt_conv_Cons)
  moreover have "[i..<?m] = [i..<k] @ [k..<?m]"
    using upt_add_eq_append [of i k "?m - k"] assms(1) \<open>k < ?m\<close> by simp
  ultimately have "[i..<?m] = [i..<k] @ k # [Suc k..<?m]"
    by simp
  then show ?thesis by (simp add: row_line_def)
qed

lemma rows_at:
  "i \<le> k \<Longrightarrow> k < length data \<Longrightarrow>
   \<exists>t. drop (entry_offset (k - i)) (rows data i) = entry data k @ t \<and>
       (k + 1 = length data \<longrightarrow> t = [newline])"
proof (induction data i rule: rows.induct)
  case (1 data i)
  from "1.prems" have run: "i < length data" by simp
  show ?case
  proof (cases "k < i + 16")
    case True
    let ?pre = "''    '' @ concat (map (entry data) [i..<k])"
    let ?t = "concat (map (entry data) [Suc k..<min (i + 16) (length data)]) @ newline # rows data (i + 16)"
    have "length ?pre = entry_offset (k - i)"
      using True "1.prems" length_entries [of k data i] by (simp add: entry_offset_first_row)
    moreover have "rows data i = ?pre @ entry data k @ ?t"
      using row_line_split [of i k data] True "1.prems" by (simp add: rows_unfold [OF run])
    ultimately have "drop (entry_offset (k - i)) (rows data i) = entry data k @ ?t"
      by (rule drop_prefix)
    moreover have "k + 1 = length data \<longrightarrow> ?t = [newline]"
      using True by (auto simp: rows_done)
    ultimately show ?thesis by blast
  next
    case False
    with "1.prems" have full: "i + 16 < length data" and le: "i + 16 \<le> k" by simp_all
    from le "1.prems" have off: "entry_offset (k - i) = 101 + entry_offset (k - (i + 16))"
      using entry_offset_next_row [of "k - i"] by simp
    have "length (row_line data i @ [newline]) = 101"
      using length_full_row_line [OF full] by simp
    then have "drop (101 + entry_offset (k - (i + 16))) ((row_line data i @ [newline]) @ rows data (i + 16)) =
        drop (entry_offset (k - (i + 16))) (rows data (i + 16))"
      by (rule drop_past)
    moreover have "rows data i = (row_line data i @ [newline]) @ rows data (i + 16)"
      by (simp add: rows_unfold [OF run])
    ultimately have "drop (entry_offset (k - i)) (rows data i) =
        drop (entry_offset (k - (i + 16))) (rows data (i + 16))"
      by (simp only: off)
    with "1.IH" [OF run le "1.prems"(2)] show ?thesis by simp
  qed
qed

lemma array_body_at:
  "k < length data \<Longrightarrow>
   \<exists>t. drop (entry_offset k) (array_body data) = entry data k @ t \<and>
       (k + 1 = length data \<longrightarrow> t = [newline])"
  using rows_at [of 0 k data] by (simp add: array_body_rows)

lemma value_at:
  "k < length data \<Longrightarrow> take 4 (drop (entry_offset k) (array_body data)) = hex_literal (data ! k)"
  using array_body_at [of k data] by (auto simp: entry_def length_hex_literal)

lemma separator_at:
  "k + 1 < length data \<Longrightarrow>
   take 6 (drop (entry_offset k) (array_body data)) = hex_literal (data ! k) @ '', ''"
  using array_body_at [of k data] by (auto simp: entry_def length_hex_literal)

lemma last_value_at:
  "k + 1 = length data \<Longrightarrow>
   drop (entry_offset k) (array_body data) = hex_literal (data ! k) @ [newline]"
  using array_body_at [of k data] by (auto simp: entry_def)

lemma count_comma_entry:
  "count_list (entry data k) (CHR '','') = (if k + 1 < length data then 1 else 0)"
  using hex_literal_plain [of "CHR '',''" "data ! k"]
  by (auto simp: entry_def is_formatting_def count_list_0_iff)

lemma count_comma_entries:
  "b \<le> length data \<Longrightarrow>
   count_list (concat (map (entry data) [a..<b])) (CHR '','') = min b (length data - 1) - a"
proof (induction b)
  case 0
  then show ?case by simp
next
  case (Suc b)
  show ?case
  proof (cases "a \<le> b")
    case True
    then have "[a..<Suc b] = [a..<b] @ [b]" by simp
    then have "count_list (concat (map (entry data) [a..<Suc b])) (CHR '','') =
        (min b (length data - 1) - a) + (if b + 1 < length data then 1 else 0)"
      using Suc by (simp add: count_comma_entry)
    also have "\<dots> = min (Suc b) (length data - 1) - a"
      using True Suc.prems by (auto simp: min_def)
    finally show ?thesis .
  next
    case False
    then show ?thesis by simp
  qed
qed

lemma count_comma_rows: "count_list (rows data i) (CHR '','') = length data - 1 - i"
proof (induction data i rule: rows.induct)
  case (1 data i)
  show ?case
  proof (cases "i < length data")
    case False
    then show ?thesis by (simp add: rows_done)
  next
    case True
    have "count_list (rows data i) (CHR '','') =
        count_list (concat (map (entry data) [i..<min (i + 16) (length data)])) (CHR '','')
          + count_list (rows data (i + 16)) (CHR '','')"
      by (simp add: rows_unfold [OF True] row_line_def newline_def)
    also have "\<dots> = (min (min (i + 16) (length data)) (length data - 1) - i) + (length data - 1 - (i + 16))"
      using count_comma_entries [of "min (i + 16) (length data)" data i] "1.IH" [OF True] by simp
    also have "\<dots> = length data - 1 - i"
      using True by (auto simp: min_def)
    finally show ?thesis .
  qed
qed

subsection \<open>The whole header\<close>

lemma sample_rows_17:
  "rows [0x00, 0x01, 0x02, 0x03, 0x04, 0x05, 0x06, 0x07, 0x08, 0x09, 0x0A, 0x0B, 0x0C, 0x0D,
     0x0E, 0x0F, 0x10] 0 =
   ''    0x00, 0x01, 0x02, 0x03, 0x04, 0x05, 0x06, 0x07, 0x08, 0x09, 0x0a, 0x0b, 0x0c, 0x0d, 0x0e, 0x0f, \<newline>    0x10\<newline>''"
  by code_simp

lemma sample_body_17:
  "array_body [0x00, 0x01, 0x02, 0x03, 0x04, 0x05, 0x06, 0x07, 0x08, 0x09, 0x0A, 0x0B, 0x0C, 0x0D,
     0x0E, 0x0F, 0x10] =
   ''    0x00, 0x01, 0x02, 0x03, 0x04, 0x05, 0x06, 0x07, 0x08, 0x09, 0x0a, 0x0b, 0x0c, 0x0d, 0x0e, 0x0f, \<newline>    0x10\<newline>''"
  by (simp only: array_body_rows sample_rows_17)

lemma sample_rows: "rows [0x00, 0x41, 0xFF] 0 = ''    0x00, 0x41, 0xff\<newline>''"
  by code_simp

lemma sample_body: "array_body [0x00, 0x41, 0xFF] = ''    0x00, 0x41, 0xff\<newline>''"
  by (simp only: array_body_rows sample_rows)



lemma and_then_ok: "and_then (None, f) k = k f"
  by (simp add: and_then_def)

lemma and_then_raise: "and_then (Some e, f) k = (Some e, f)"
  by (simp add: and_then_def)

lemma encodable_ascii:
  "encodable f ''// Generated from ''"
  "encodable f ''#pragma once''"
  "encodable f ''#include <cstdint>''"
  "encodable f ''inline constexpr unsigned char ''"
  "encodable f ''_data[] = {''"
  "encodable f ''};''"
  "encodable f ''inline constexpr unsigned int ''"
  "encodable f ''_len = sizeof(''"
  "encodable f ''_data);''"
  "encodable f [newline]"
  "encodable f [newline, newline]"
  by (simp_all add: encodable_def is_ascii_def newline_def)

lemma write_then:
  "encodable f s \<Longrightarrow> and_then (f_write f s) k = k (f\<lparr>written := written f @ s\<rparr>)"
  by (simp add: f_write_def and_then_def)

lemma write_raise:
  "\<not> encodable f s \<Longrightarrow> and_then (f_write f s) k = (Some UnicodeEncodeError, f)"
  by (simp add: f_write_def and_then_def)

lemma loop_then:
  "and_then (outer_loop data 0 f) k = k (f\<lparr>written := written f @ array_body data\<rparr>)"
  by (simp add: outer_loop_text and_then_def array_body_rows)

lemma write_header_ok:
  assumes "encodable f input_file" "encodable f var_name"
  shows "write_header input_file var_name data f =
    (None, f\<lparr>written := written f @ header_text input_file var_name data\<rparr>)"
  unfolding write_header_def
  apply (simp only: write_then loop_then encodable_written encodable_append encodable_ascii
      assms simp_thms)
  apply (simp only: f_write_ok encodable_written encodable_append encodable_ascii assms simp_thms)
  apply (simp add: header_text_def newline_def)
  done

lemma write_header_okD:
  assumes "fst (write_header input_file var_name data f) = None"
  shows "encodable f input_file \<and> encodable f var_name"
proof (rule ccontr)
  assume bad: "\<not> (encodable f input_file \<and> encodable f var_name)"
  show False
  proof (cases "encodable f input_file")
    case False
    then have "\<not> encodable f (''// Generated from '' @ input_file @ [newline])"
      by (simp only: encodable_append simp_thms)
    then have "write_header input_file var_name data f = (Some UnicodeEncodeError, f)"
      unfolding write_header_def by (rule write_raise)
    with assms show False by simp
  next
    case True
    with bad have var: "\<not> encodable f var_name" by simp
    have "fst (write_header input_file var_name data f) = Some UnicodeEncodeError"
      unfolding write_header_def
      by (simp only: write_then write_raise encodable_written encodable_append
          encodable_ascii True var simp_thms fst_conv)
    with assms show False by simp
  qed
qed

lemma bmp_to_header_success:
  "read_binary w input_file = Inr data \<Longrightarrow> can_write w output_file \<Longrightarrow>
   encodable (new_file (locale_encodes w)) input_file \<Longrightarrow>
   encodable (new_file (locale_encodes w)) var_name \<Longrightarrow>
   bmp_to_header input_file output_file var_name w =
     (Inr (),
      w\<lparr>files := (files w)(output_file \<mapsto> encode_text (header_text input_file var_name data))\<rparr>)"
  by (simp add: bmp_to_header_def open_write_def write_header_ok new_file_def)

lemma bmp_to_header_successD:
  assumes "bmp_to_header input_file output_file var_name w = (Inr u, w')"
  shows "\<exists>data. read_binary w input_file = Inr data \<and> can_write w output_file \<and>
    encodable (new_file (locale_encodes w)) input_file \<and>
    encodable (new_file (locale_encodes w)) var_name"
proof -
  from assms obtain data where rd: "read_binary w input_file = Inr data"
    by (auto simp: bmp_to_header_def split: sum.splits)
  from assms rd have wr: "can_write w output_file"
    by (auto simp: bmp_to_header_def open_write_def split: if_splits)
  from assms rd wr
  have "fst (write_header input_file var_name data (new_file (locale_encodes w))) = None"
    by (auto simp: bmp_to_header_def open_write_def split: prod.splits option.splits)
  from write_header_okD [OF this] rd wr show ?thesis by blast
qed

lemma sample_read: "read_binary sample_world ''in.bmp'' = Inr [0x00, 0x41, 0xFF]"
  by (simp add: read_binary_def sample_world_def)

lemma sample_encodable:
  "encodable (new_file (locale_encodes sample_world)) ''in.bmp''"
  "encodable (new_file (locale_encodes sample_world)) ''empty.bmp''"
  "encodable (new_file (locale_encodes sample_world)) ''icon''"
  by (simp_all add: encodable_def is_ascii_def)

subsection \<open>The lines of the header and the initializers of the array\<close>









lemma newline_literal: "''\<newline>'' = [newline]"
  by (simp add: newline_def)




subsection \<open>The length constant, read from the header\<close>










subsection \<open>The sample inputs, line by line\<close>

lemma sample_lines_17:
  "lines_of ''    0x00, 0x01, 0x02, 0x03, 0x04, 0x05, 0x06, 0x07, 0x08, 0x09, 0x0a, 0x0b, 0x0c, 0x0d, 0x0e, 0x0f, \<newline>    0x10\<newline>'' =
     [''    0x00, 0x01, 0x02, 0x03, 0x04, 0x05, 0x06, 0x07, 0x08, 0x09, 0x0a, 0x0b, 0x0c, 0x0d, 0x0e, 0x0f, '',
      ''    0x10'']"
  by code_simp

lemma sample_literals_17:
  "literals ''    0x00, 0x01, 0x02, 0x03, 0x04, 0x05, 0x06, 0x07, 0x08, 0x09, 0x0a, 0x0b, 0x0c, 0x0d, 0x0e, 0x0f, '' =
     [''0x00'', ''0x01'', ''0x02'', ''0x03'', ''0x04'', ''0x05'', ''0x06'', ''0x07'', ''0x08'',
      ''0x09'', ''0x0a'', ''0x0b'', ''0x0c'', ''0x0d'', ''0x0e'', ''0x0f'']"
  "literals ''    0x10'' = [''0x10'']"
  by code_simp+

lemma sample_lines: "lines_of ''    0x00, 0x41, 0xff\<newline>'' = [''    0x00, 0x41, 0xff'']"
  by code_simp

section \<open>The claims\<close>

text \<open>
  C1. For every byte sequence read from the input file, the array body holds exactly one
  hexadecimal literal per input byte, in the original order: the literals of the body
  are the literals of the bytes, there are as many as bytes, and decoding them in order,
  the formatting stripped, gives the bytes back.
\<close>

theorem array_body_roundtrip:
  "literals (array_body data) = map hex_literal data \<and>
   length (literals (array_body data)) = length data \<and>
   decode (array_body data) = Some data"
proof -
  have "those (map Some data) = Some data"
    using those_map_Some [of "\<lambda>x. x" data] by simp
  then have "decode (array_body data) = Some data"
    by (simp only: decode_def parse_literals_array_body)
  then show ?thesis
    by (simp add: literals_array_body)
qed




text \<open>
  C3. In the array body a comma follows every value but the very last of the whole
  sequence: the \<open>k\<close>-th value stands at its offset, the character after it is a comma
  when another value follows, and after the last value only the newline remains; the
  body holds one comma less than values.
\<close>

theorem comma_after_all_but_last:
  "k < length data \<Longrightarrow>
   take 4 (drop (entry_offset k) (array_body data)) = hex_literal (data ! k) \<and>
   (if k + 1 < length data
    then take 1 (drop (entry_offset k + 4) (array_body data)) = '',''
    else drop (entry_offset k + 4) (array_body data) = ''\<newline>'') \<and>
   count_list (array_body data) (CHR '','') = length data - 1"
proof -
  assume k: "k < length data"
  then obtain t where t: "drop (entry_offset k) (array_body data) = entry data k @ t"
    and last: "k + 1 = length data \<longrightarrow> t = [newline]"
    using array_body_at [of k data] by blast
  have "drop (entry_offset k + 4) (array_body data) =
      drop 4 (drop (entry_offset k) (array_body data))"
    by (simp only: drop_drop add.commute)
  then have "drop (entry_offset k + 4) (array_body data) = drop 4 (entry data k @ t)"
    by (simp only: t)
  then have "if k + 1 < length data
      then take 1 (drop (entry_offset k + 4) (array_body data)) = '',''
      else drop (entry_offset k + 4) (array_body data) = ''\<newline>''"
    using k last by (auto simp: entry_def length_hex_literal newline_def)
  moreover have "count_list (array_body data) (CHR '','') = length data - 1"
    by (simp add: array_body_rows count_comma_rows)
  ultimately show ?thesis
    using value_at [OF k] by simp
qed

theorem comma_after_all_but_last_witness:
  "take 4 (drop 10 ''    0x00, 0x41, 0xff\<newline>'') = hex_literal 0x41 \<and>
   take 1 (drop 14 ''    0x00, 0x41, 0xff\<newline>'') = '','' \<and>
   count_list ''    0x00, 0x41, 0xff\<newline>'' (CHR '','') = 2"
  using comma_after_all_but_last [of 1 "[0x00, 0x41, 0xFF]"]
  unfolding sample_body by (simp add: entry_offset_def)

text \<open>
  C4. The values are grouped into lines of at most 16: no line of the array body holds
  more than 16 literals. For the 17 bytes \<open>0x00\<close> to \<open>0x10\<close> the body has exactly two
  lines: the first holds 16 values, the last of them followed by a comma (and a space),
  the second holds the single value \<open>0x10\<close> with no comma after it.
\<close>

theorem lines_of_sixteen:
  "(\<forall>l \<in> set (lines_of (array_body data)). length (literals l) \<le> 16) \<and>
   array_body [0x00, 0x01, 0x02, 0x03, 0x04, 0x05, 0x06, 0x07, 0x08, 0x09, 0x0A, 0x0B, 0x0C,
     0x0D, 0x0E, 0x0F, 0x10] =
     ''    0x00, 0x01, 0x02, 0x03, 0x04, 0x05, 0x06, 0x07, 0x08, 0x09, 0x0a, 0x0b, 0x0c, 0x0d, 0x0e, 0x0f, \<newline>    0x10\<newline>'' \<and>
   lines_of (array_body [0x00, 0x01, 0x02, 0x03, 0x04, 0x05, 0x06, 0x07, 0x08, 0x09, 0x0A, 0x0B,
     0x0C, 0x0D, 0x0E, 0x0F, 0x10]) =
     [''    0x00, 0x01, 0x02, 0x03, 0x04, 0x05, 0x06, 0x07, 0x08, 0x09, 0x0a, 0x0b, 0x0c, 0x0d, 0x0e, 0x0f, '',
      ''    0x10''] \<and>
   length (literals ''    0x00, 0x01, 0x02, 0x03, 0x04, 0x05, 0x06, 0x07, 0x08, 0x09, 0x0a, 0x0b, 0x0c, 0x0d, 0x0e, 0x0f, '') = 16 \<and>
   literals ''    0x10'' = [''0x10'']"
proof -
  have "\<forall>l \<in> set (lines_of (array_body data)). length (literals l) \<le> 16"
    using lines_rows_bound [of _ data 0] by (simp add: lines_of_def array_body_rows)
  then show ?thesis
    by (simp only: sample_body_17 sample_lines_17 sample_literals_17) simp
qed

theorem lines_of_sixteen_witness:
  "''    0x00, 0x41, 0xff'' \<in> set (lines_of (array_body [0x00, 0x41, 0xFF])) \<and>
   length (literals ''    0x00, 0x41, 0xff'') \<le> 16"
proof -
  have mem: "''    0x00, 0x41, 0xff'' \<in> set (lines_of (array_body [0x00, 0x41, 0xFF]))"
    by (simp only: sample_body sample_lines) simp
  from lines_of_sixteen [of "[0x00, 0x41, 0xFF]", THEN conjunct1, THEN bspec, OF mem] mem
  show ?thesis by simp
qed

text \<open>
  C5 as stated fails: the array body for the bytes \<open>0x00, 0x41, 0xFF\<close> is not the text
  \<^verbatim>\<open>0x00, 0x41, 0xff\<close> and a newline, since every line of the body starts with four
  spaces.
\<close>

theorem sample_body_not_unindented:
  "array_body [0x00, 0x41, 0xFF] \<noteq> ''0x00, 0x41, 0xff\<newline>''"
  by (simp only: sample_body) simp

text \<open>
  C5, amended. Each input byte is written as \<^verbatim>\<open>0x\<close> followed by the two lowercase
  hexadecimal digits of its value, high digit first; for the bytes \<open>0x00, 0x41, 0xFF\<close>
  the array body is the single line of four spaces, \<^verbatim>\<open>0x00, 0x41, 0xff\<close> and a
  newline: three values, no comma after the last.
\<close>

theorem two_digit_lowercase_hex:
  "hex_literal b =
     [CHR ''0'', CHR ''x'', ''0123456789abcdef'' ! (unat b div 16),
      ''0123456789abcdef'' ! (unat b mod 16)] \<and>
   literals (array_body data) = map hex_literal data \<and>
   array_body [0x00, 0x41, 0xFF] = ''    0x00, 0x41, 0xff\<newline>'' \<and>
   lines_of (array_body [0x00, 0x41, 0xFF]) = [''    0x00, 0x41, 0xff''] \<and>
   literals (array_body [0x00, 0x41, 0xFF]) = [''0x00'', ''0x41'', ''0xff'']"
proof -
  have "literals ''    0x00, 0x41, 0xff\<newline>'' = [''0x00'', ''0x41'', ''0xff'']"
    by code_simp
  moreover have "hex_literal b =
     [CHR ''0'', CHR ''x'', ''0123456789abcdef'' ! (unat b div 16),
      ''0123456789abcdef'' ! (unat b mod 16)]"
    using hex_literal_digits [of b] by (simp only: hex_digit_def)
  ultimately show ?thesis
    by (simp only: sample_body sample_lines literals_array_body simp_thms)
qed

text \<open>
  C9. Every value but the last of the sequence is followed by a comma and a space, also
  the last value of a line that is not the last line; so every line of the array body
  but the last ends with a comma and a space, right before its newline.
\<close>

theorem comma_space_after_values:
  "(k + 1 < length data \<longrightarrow>
      take 6 (drop (entry_offset k) (array_body data)) = hex_literal (data ! k) @ '', '') \<and>
   (l + 1 < length (lines_of (array_body data)) \<longrightarrow>
      (\<exists>p. lines_of (array_body data) ! l = p @ '', ''))"
  using separator_at [of k data] lines_rows_comma_space [of l data 0]
  by (simp add: lines_of_def array_body_rows)

theorem comma_space_after_values_witness:
  "take 6 (drop (entry_offset 15) (array_body [0x00, 0x01, 0x02, 0x03, 0x04, 0x05, 0x06, 0x07,
      0x08, 0x09, 0x0A, 0x0B, 0x0C, 0x0D, 0x0E, 0x0F, 0x10])) = ''0x0f, '' \<and>
   (\<exists>p. ''    0x00, 0x01, 0x02, 0x03, 0x04, 0x05, 0x06, 0x07, 0x08, 0x09, 0x0a, 0x0b, 0x0c, 0x0d, 0x0e, 0x0f, '' = p @ '', '')"
proof -
  let ?data = "[0x00, 0x01, 0x02, 0x03, 0x04, 0x05, 0x06, 0x07, 0x08, 0x09, 0x0A, 0x0B, 0x0C,
     0x0D, 0x0E, 0x0F, 0x10] :: byte list"
  have k: "15 + 1 < length ?data" by simp
  have l: "0 + 1 < length (lines_of (array_body ?data))"
    by (simp only: sample_body_17 sample_lines_17) simp
  have lit: "hex_literal (?data ! 15) = ''0x0f''"
    by code_simp
  have line: "lines_of (array_body ?data) ! 0 =
      ''    0x00, 0x01, 0x02, 0x03, 0x04, 0x05, 0x06, 0x07, 0x08, 0x09, 0x0a, 0x0b, 0x0c, 0x0d, 0x0e, 0x0f, ''"
    by (simp only: sample_body_17 sample_lines_17) simp
  from comma_space_after_values [of 15 ?data 0, THEN conjunct1, THEN mp, OF k]
    comma_space_after_values [of 15 ?data 0, THEN conjunct2, THEN mp, OF l]
  show ?thesis
    unfolding lit line by simp
qed




text \<open>
  C7. Called with a number of positional arguments other than 3, the script prints
  \<^verbatim>\<open>Usage: <program_name> <input.bmp> <output.h> <var_name>\<close> on standard output and
  exits with status 1; no file is created or modified.
\<close>

theorem usage_on_wrong_argument_count:
  "length args \<noteq> 3 \<Longrightarrow>
   main (prog # args) w =
     (Exited 1,
      w\<lparr>stdout := stdout w @ ''Usage: '' @ prog @ '' <input.bmp> <output.h> <var_name>\<newline>''\<rparr>) \<and>
   exit_status (fst (main (prog # args) w)) = 1 \<and>
   files (snd (main (prog # args) w)) = files w"
  by (simp add: main_def print_def usage_def newline_def)

theorem usage_on_wrong_argument_count_witness:
  "main [''bmp_to_header.py'', ''in.bmp'', ''out.h''] sample_world =
     (Exited 1,
      sample_world\<lparr>stdout := ''Usage: bmp_to_header.py <input.bmp> <output.h> <var_name>\<newline>''\<rparr>) \<and>
   files (snd (main [''bmp_to_header.py'', ''in.bmp'', ''out.h''] sample_world)) = files sample_world"
proof -
  have "length [''in.bmp'', ''out.h''] \<noteq> 3" by simp
  from usage_on_wrong_argument_count [OF this, of "''bmp_to_header.py''" sample_world]
  show ?thesis by (simp add: sample_world_def)
qed

text \<open>
  C8. Every successful conversion leaves in the output file the lines
  \<^verbatim>\<open>// Generated from <input_path>\<close>, \<^verbatim>\<open>#pragma once\<close>, a blank line,
  \<^verbatim>\<open>#include <cstdint>\<close>, a blank line and
  \<^verbatim>\<open>inline constexpr unsigned char <identifier>_data[] = {\<close>, the path and the identifier
  as the caller gave them, then the array body of the bytes read, then \<^verbatim>\<open>};\<close>, a blank
  line and the line of the length constant.
\<close>

theorem header_layout:
  "bmp_to_header input_file output_file var_name w = (Inr u, w') \<Longrightarrow>
   \<exists>data. read_binary w input_file = Inr data \<and>
     files w' output_file = Some (encode_text
       (''// Generated from '' @ input_file
          @ ''\<newline>#pragma once\<newline>\<newline>#include <cstdint>\<newline>\<newline>inline constexpr unsigned char ''
          @ var_name @ ''_data[] = {\<newline>'' @ array_body data
          @ ''};\<newline>\<newline>inline constexpr unsigned int '' @ var_name @ ''_len = sizeof(''
          @ var_name @ ''_data);\<newline>''))"
proof -
  assume run: "bmp_to_header input_file output_file var_name w = (Inr u, w')"
  then obtain data where rd: "read_binary w input_file = Inr data"
    and wr: "can_write w output_file"
    and enc: "encodable (new_file (locale_encodes w)) input_file"
      "encodable (new_file (locale_encodes w)) var_name"
    using bmp_to_header_successD by blast
  from bmp_to_header_success [OF rd wr enc] run
  have "files w' output_file = Some (encode_text (header_text input_file var_name data))"
    by auto
  with rd show ?thesis
    by (simp only: header_text_def) blast
qed

theorem header_layout_witness:
  "files (snd (bmp_to_header ''in.bmp'' ''out.h'' ''icon'' sample_world)) ''out.h'' =
     Some (encode_text
       ''// Generated from in.bmp\<newline>#pragma once\<newline>\<newline>#include <cstdint>\<newline>\<newline>inline constexpr unsigned char icon_data[] = {\<newline>    0x00, 0x41, 0xff\<newline>};\<newline>\<newline>inline constexpr unsigned int icon_len = sizeof(icon_data);\<newline>'')"
proof -
  have "can_write sample_world ''out.h''"
    by (simp add: sample_world_def)
  from bmp_to_header_success [OF sample_read this sample_encodable(1) sample_encodable(3)]
  have run: "bmp_to_header ''in.bmp'' ''out.h'' ''icon'' sample_world =
      (Inr (), snd (bmp_to_header ''in.bmp'' ''out.h'' ''icon'' sample_world))"
    by simp
  from header_layout [OF run] show ?thesis
    by (simp add: sample_read sample_body)
qed

text \<open>
  C10. The input is opened and read before the output is opened: when opening or reading
  the input fails, the conversion raises that error, which is an \<open>IOError\<close>, and leaves the
  world as it was; the output file is not created, truncated or modified.
\<close>

theorem input_failure_leaves_output:
  "read_binary w input_file = Inl e \<Longrightarrow>
   bmp_to_header input_file output_file var_name w = (Inl e, w) \<and> e = IOError"
  by (auto simp: bmp_to_header_def read_binary_def split: option.splits if_splits)

theorem input_failure_leaves_output_witness:
  "bmp_to_header ''missing.bmp'' ''in.bmp'' ''icon'' sample_world = (Inl IOError, sample_world)"
proof -
  have "read_binary sample_world ''missing.bmp'' = Inl IOError"
    by (simp add: read_binary_def sample_world_def)
  from input_failure_leaves_output [OF this] show ?thesis by simp
qed

end
